theory Spec2Isabelle
  imports Main "HOL-Library.Word"
begin

section \<open>Data model of contracts/GhostStake.sol\<close>

type_synonym address = "160 word"
type_synonym uint32 = "32 word"
type_synonym bytes = "8 word list"

text \<open>
  Modelled from the spec: the confidential-arithmetic capability of section 6 (the FHE
  library imported from @fhevm/solidity, which is not part of the repository). A
  confidential value is a handle together with the plaintext its ciphertext encrypts;
  the handle is what the contract stores and returns, the plaintext is what an
  authorised principal obtains by decrypting off-chain. Handle 0 is the all-zero
  bytes32, the default content of a storage slot that was never written.
\<close>

datatype 'a ciphertext = Ct (handle: nat) (plain: 'a)

type_synonym euint32 = "uint32 ciphertext"
type_synonym ebool = "bool ciphertext"
type_synonym externalEuint32 = nat

definition ZeroHash :: euint32 where
  "ZeroHash = Ct 0 0"

text \<open>
  Modelled from the spec: the state of the capability. \<open>handleCount\<close> numbers the handles
  issued so far, \<open>acl\<close> records which principal may decrypt which handle
  (grantAccess / grantAccessToSelf), \<open>attested\<close> is the input verifier: for a caller, an
  external handle and a proof it gives the plaintext of the attested ciphertext, or
  \<open>None\<close> when the proof does not verify. \<open>thisAddress\<close> is address(this).
\<close>

record fhevm =
  handleCount :: nat
  acl :: "(nat \<times> address) set"
  attested :: "address \<Rightarrow> externalEuint32 \<Rightarrow> bytes \<Rightarrow> uint32 option"
  thisAddress :: address

text \<open>The contract inherits the FHEVM configuration and adds its seven mappings.\<close>

record ghost_stake = fhevm +
  goldBalances :: "address \<Rightarrow> euint32"
  stakedBalances :: "address \<Rightarrow> euint32"
  hasClaimed :: "address \<Rightarrow> bool"
  lastActionStatus :: "address \<Rightarrow> euint32"
  hasGoldBalance :: "address \<Rightarrow> bool"
  hasStakedBalance :: "address \<Rightarrow> bool"
  hasStatusRecord :: "address \<Rightarrow> bool"

datatype event = GoldClaimed address | GoldStaked address | GoldWithdrawn address

text \<open>
  \<open>AlreadyClaimed\<close> is the revert of \<open>require(!hasClaimed[player], "Gold already claimed")\<close>;
  \<open>InvalidProof\<close> is the revert of \<open>FHE.fromExternal\<close> on a proof that does not verify.
\<close>

datatype error = AlreadyClaimed | InvalidProof

definition INITIAL_GRANT :: uint32 where "INITIAL_GRANT = 100"
definition STATUS_OK :: uint32 where "STATUS_OK = 0"
definition STATUS_INSUFFICIENT_BALANCE :: uint32 where "STATUS_INSUFFICIENT_BALANCE = 1"
definition STATUS_INSUFFICIENT_STAKE :: uint32 where "STATUS_INSUFFICIENT_STAKE = 2"

section \<open>The confidential-arithmetic capability\<close>

text \<open>
  Modelled from the spec: every operation of the capability returns a new confidential
  value under a handle that was not issued before (never the all-zero handle); the
  arithmetic is that of uint32 (addition and subtraction wrap, comparison is unsigned).
  An uninitialised operand (the all-zero handle) counts as an encryption of 0. Access
  grants are recorded only: section 6 gives the arithmetic no failure for an operand the
  contract was not granted, and the only failure of the capability is that of the input
  verifier.
\<close>

definition issue :: "'a \<Rightarrow> 'b fhevm_scheme \<Rightarrow> 'a ciphertext \<times> 'b fhevm_scheme" where
  "issue v f = (Ct (Suc (handleCount f)) v, f\<lparr>handleCount := Suc (handleCount f)\<rparr>)"

definition asEuint32 :: "uint32 \<Rightarrow> 'b fhevm_scheme \<Rightarrow> euint32 \<times> 'b fhevm_scheme" where
  "asEuint32 v f = issue v f"

definition FHE_add :: "euint32 \<Rightarrow> euint32 \<Rightarrow> 'b fhevm_scheme \<Rightarrow> euint32 \<times> 'b fhevm_scheme" where
  "FHE_add a b f = issue (plain a + plain b) f"

definition FHE_sub :: "euint32 \<Rightarrow> euint32 \<Rightarrow> 'b fhevm_scheme \<Rightarrow> euint32 \<times> 'b fhevm_scheme" where
  "FHE_sub a b f = issue (plain a - plain b) f"

definition FHE_ge :: "euint32 \<Rightarrow> euint32 \<Rightarrow> 'b fhevm_scheme \<Rightarrow> ebool \<times> 'b fhevm_scheme" where
  "FHE_ge a b f = issue (plain b \<le> plain a) f"

definition FHE_select ::
  "ebool \<Rightarrow> euint32 \<Rightarrow> euint32 \<Rightarrow> 'b fhevm_scheme \<Rightarrow> euint32 \<times> 'b fhevm_scheme" where
  "FHE_select c a b f = issue (if plain c then plain a else plain b) f"

definition fromExternal ::
  "address \<Rightarrow> externalEuint32 \<Rightarrow> bytes \<Rightarrow> 'b fhevm_scheme \<Rightarrow> error + euint32" where
  "fromExternal sender inputHandle inputProof f =
     (case attested f sender inputHandle inputProof of
        None \<Rightarrow> Inl InvalidProof
      | Some v \<Rightarrow> Inr (Ct inputHandle v))"

definition allowThis :: "euint32 \<Rightarrow> 'b fhevm_scheme \<Rightarrow> 'b fhevm_scheme" where
  "allowThis v f = f\<lparr>acl := insert (handle v, thisAddress f) (acl f)\<rparr>"

definition allow :: "euint32 \<Rightarrow> address \<Rightarrow> 'b fhevm_scheme \<Rightarrow> 'b fhevm_scheme" where
  "allow v account f = f\<lparr>acl := insert (handle v, account) (acl f)\<rparr>"

section \<open>The contract\<close>

text \<open>
  \<open>_storeEncryptedValue\<close> receives two storage references, one to a mapping of
  ciphertexts and one to a mapping of flags; the references are modelled by the names of
  the mappings they point to.
\<close>

datatype bucket = GoldBalances | StakedBalances | LastActionStatus
datatype flags = HasGoldBalance | HasStakedBalance | HasStatusRecord

fun bucket_read :: "bucket \<Rightarrow> ghost_stake \<Rightarrow> address \<Rightarrow> euint32" where
  "bucket_read GoldBalances s = goldBalances s"
| "bucket_read StakedBalances s = stakedBalances s"
| "bucket_read LastActionStatus s = lastActionStatus s"

fun bucket_write :: "bucket \<Rightarrow> address \<Rightarrow> euint32 \<Rightarrow> ghost_stake \<Rightarrow> ghost_stake" where
  "bucket_write GoldBalances p v s = s\<lparr>goldBalances := (goldBalances s)(p := v)\<rparr>"
| "bucket_write StakedBalances p v s = s\<lparr>stakedBalances := (stakedBalances s)(p := v)\<rparr>"
| "bucket_write LastActionStatus p v s = s\<lparr>lastActionStatus := (lastActionStatus s)(p := v)\<rparr>"

fun flags_read :: "flags \<Rightarrow> ghost_stake \<Rightarrow> address \<Rightarrow> bool" where
  "flags_read HasGoldBalance s = hasGoldBalance s"
| "flags_read HasStakedBalance s = hasStakedBalance s"
| "flags_read HasStatusRecord s = hasStatusRecord s"

fun flags_write :: "flags \<Rightarrow> address \<Rightarrow> bool \<Rightarrow> ghost_stake \<Rightarrow> ghost_stake" where
  "flags_write HasGoldBalance p b s = s\<lparr>hasGoldBalance := (hasGoldBalance s)(p := b)\<rparr>"
| "flags_write HasStakedBalance p b s = s\<lparr>hasStakedBalance := (hasStakedBalance s)(p := b)\<rparr>"
| "flags_write HasStatusRecord p b s = s\<lparr>hasStatusRecord := (hasStatusRecord s)(p := b)\<rparr>"

definition storeEncryptedValue ::
  "bucket \<Rightarrow> flags \<Rightarrow> address \<Rightarrow> euint32 \<Rightarrow> ghost_stake \<Rightarrow> ghost_stake" where
  "storeEncryptedValue storageBucket fl player v s =
     (let s = bucket_write storageBucket player v s;
          s = flags_write fl player True s;
          s = allowThis v s;
          s = allow v player s
      in s)"

definition storeStatus :: "address \<Rightarrow> uint32 \<Rightarrow> ghost_stake \<Rightarrow> ghost_stake" where
  "storeStatus player code s =
     (let (c, s) = asEuint32 code s
      in storeEncryptedValue LastActionStatus HasStatusRecord player c s)"

definition claimInitialGold ::
  "address \<Rightarrow> ghost_stake \<Rightarrow> error + ghost_stake \<times> event list" where
  "claimInitialGold sender s =
     (let player = sender in
      if hasClaimed s player then Inl AlreadyClaimed
      else
        let (grant, s) = asEuint32 INITIAL_GRANT s;
            (currentBalance, s) =
              (if hasGoldBalance s player then (goldBalances s player, s) else asEuint32 0 s);
            (updatedBalance, s) = FHE_add currentBalance grant s;
            s = storeEncryptedValue GoldBalances HasGoldBalance player updatedBalance s;
            s = storeStatus player STATUS_OK s;
            s = s\<lparr>hasClaimed := (hasClaimed s)(player := True)\<rparr>
        in Inr (s, [GoldClaimed player]))"

definition stakeGold ::
  "address \<Rightarrow> externalEuint32 \<Rightarrow> bytes \<Rightarrow> ghost_stake \<Rightarrow> error + ghost_stake \<times> event list" where
  "stakeGold sender encryptedAmountHandle inputProof s =
     (let player = sender in
      case fromExternal sender encryptedAmountHandle inputProof s of
        Inl e \<Rightarrow> Inl e
      | Inr encryptedAmount \<Rightarrow>
        let (currentBalance, s) =
              (if hasGoldBalance s player then (goldBalances s player, s) else asEuint32 0 s);
            (currentStake, s) =
              (if hasStakedBalance s player then (stakedBalances s player, s) else asEuint32 0 s);
            (updatedBalance, s) = FHE_sub currentBalance encryptedAmount s;
            (updatedStake, s) = FHE_add currentStake encryptedAmount s;
            (hasSufficientBalance, s) = FHE_ge currentBalance encryptedAmount s;
            (safeBalance, s) = FHE_select hasSufficientBalance updatedBalance currentBalance s;
            (safeStake, s) = FHE_select hasSufficientBalance updatedStake currentStake s;
            (ok, s) = asEuint32 STATUS_OK s;
            (insufficient, s) = asEuint32 STATUS_INSUFFICIENT_BALANCE s;
            (status, s) = FHE_select hasSufficientBalance ok insufficient s;
            s = storeEncryptedValue GoldBalances HasGoldBalance player safeBalance s;
            s = storeEncryptedValue StakedBalances HasStakedBalance player safeStake s;
            s = storeEncryptedValue LastActionStatus HasStatusRecord player status s
        in Inr (s, [GoldStaked player]))"

definition withdrawStakedGold ::
  "address \<Rightarrow> externalEuint32 \<Rightarrow> bytes \<Rightarrow> ghost_stake \<Rightarrow> error + ghost_stake \<times> event list" where
  "withdrawStakedGold sender encryptedAmountHandle inputProof s =
     (let player = sender in
      case fromExternal sender encryptedAmountHandle inputProof s of
        Inl e \<Rightarrow> Inl e
      | Inr encryptedAmount \<Rightarrow>
        let (currentStake, s) =
              (if hasStakedBalance s player then (stakedBalances s player, s) else asEuint32 0 s);
            (currentBalance, s) =
              (if hasGoldBalance s player then (goldBalances s player, s) else asEuint32 0 s);
            (updatedStake, s) = FHE_sub currentStake encryptedAmount s;
            (updatedBalance, s) = FHE_add currentBalance encryptedAmount s;
            (hasStakeAvailable, s) = FHE_ge currentStake encryptedAmount s;
            (safeStake, s) = FHE_select hasStakeAvailable updatedStake currentStake s;
            (safeBalance, s) = FHE_select hasStakeAvailable updatedBalance currentBalance s;
            (ok, s) = asEuint32 STATUS_OK s;
            (insufficient, s) = asEuint32 STATUS_INSUFFICIENT_STAKE s;
            (status, s) = FHE_select hasStakeAvailable ok insufficient s;
            s = storeEncryptedValue StakedBalances HasStakedBalance player safeStake s;
            s = storeEncryptedValue GoldBalances HasGoldBalance player safeBalance s;
            s = storeEncryptedValue LastActionStatus HasStatusRecord player status s
        in Inr (s, [GoldWithdrawn player]))"

definition getGoldBalance :: "ghost_stake \<Rightarrow> address \<Rightarrow> euint32" where
  "getGoldBalance s player = goldBalances s player"

definition getStakedBalance :: "ghost_stake \<Rightarrow> address \<Rightarrow> euint32" where
  "getStakedBalance s player = stakedBalances s player"

definition hasClaimedInitialGold :: "ghost_stake \<Rightarrow> address \<Rightarrow> bool" where
  "hasClaimedInitialGold s player = hasClaimed s player"

definition getLastActionStatus :: "ghost_stake \<Rightarrow> address \<Rightarrow> euint32" where
  "getLastActionStatus s player = lastActionStatus s player"

section \<open>Transactions\<close>

text \<open>
  A transaction is an external call by a sender. A call that reverts leaves the state as
  it was before the call and emits nothing; the error is reported to the caller.
\<close>

datatype call =
    ClaimInitialGold
  | StakeGold externalEuint32 bytes
  | WithdrawStakedGold externalEuint32 bytes

fun dispatch :: "address \<Rightarrow> call \<Rightarrow> ghost_stake \<Rightarrow> error + ghost_stake \<times> event list" where
  "dispatch sender ClaimInitialGold s = claimInitialGold sender s"
| "dispatch sender (StakeGold h prf) s = stakeGold sender h prf s"
| "dispatch sender (WithdrawStakedGold h prf) s = withdrawStakedGold sender h prf s"

definition transact :: "address \<times> call \<Rightarrow> ghost_stake \<Rightarrow> ghost_stake \<times> event list \<times> error option" where
  "transact t s =
     (case dispatch (fst t) (snd t) s of
        Inl e \<Rightarrow> (s, [], Some e)
      | Inr (s', evs) \<Rightarrow> (s', evs, None))"

fun run :: "(address \<times> call) list \<Rightarrow> ghost_stake \<Rightarrow> ghost_stake \<times> event list" where
  "run [] s = (s, [])"
| "run (t # ts) s =
     (case transact t s of
        (s', evs, _) \<Rightarrow> (case run ts s' of (s'', evs') \<Rightarrow> (s'', evs @ evs')))"

text \<open>The freshly deployed contract: every mapping holds its default value.\<close>

definition deployed ::
  "address \<Rightarrow> (address \<Rightarrow> externalEuint32 \<Rightarrow> bytes \<Rightarrow> uint32 option) \<Rightarrow> ghost_stake" where
  "deployed this att =
     \<lparr> handleCount = 0, acl = {}, attested = att, thisAddress = this,
       goldBalances = (\<lambda>_. ZeroHash), stakedBalances = (\<lambda>_. ZeroHash),
       hasClaimed = (\<lambda>_. False), lastActionStatus = (\<lambda>_. ZeroHash),
       hasGoldBalance = (\<lambda>_. False), hasStakedBalance = (\<lambda>_. False),
       hasStatusRecord = (\<lambda>_. False) \<rparr>"

definition after ::
  "address \<Rightarrow> (address \<Rightarrow> externalEuint32 \<Rightarrow> bytes \<Rightarrow> uint32 option) \<Rightarrow> (address \<times> call) list
     \<Rightarrow> ghost_stake" where
  "after this att txs = fst (run txs (deployed this att))"

text \<open>
  The client's reading of a getter's result (\<open>decryptValue\<close> of the test suite, the
  \<open>decrypt-balances\<close> task): the all-zero handle reads as 0, any other handle is decrypted.
\<close>

definition decryptValue :: "euint32 \<Rightarrow> uint32" where
  "decryptValue c = (if c = ZeroHash then 0 else plain c)"

section \<open>Notions used by the properties\<close>

text \<open>
  The plaintexts of the local variables \<open>currentBalance\<close> and \<open>currentStake\<close> of the three
  mutating functions: the stored ciphertext when the existence flag is set, a fresh
  encryption of 0 otherwise.
\<close>

definition currentBalance :: "ghost_stake \<Rightarrow> address \<Rightarrow> uint32" where
  "currentBalance s p = (if hasGoldBalance s p then plain (goldBalances s p) else 0)"

definition currentStake :: "ghost_stake \<Rightarrow> address \<Rightarrow> uint32" where
  "currentStake s p = (if hasStakedBalance s p then plain (stakedBalances s p) else 0)"

text \<open>The holdings of an identity as a natural number (no wrap-around in the sum).\<close>

definition holdings :: "ghost_stake \<Rightarrow> address \<Rightarrow> nat" where
  "holdings s p = unat (currentBalance s p) + unat (currentStake s p)"

text \<open>The sum of the grants an event log records for an identity.\<close>

definition granted :: "event list \<Rightarrow> address \<Rightarrow> nat" where
  "granted evs p = unat INITIAL_GRANT * count_list evs (GoldClaimed p)"

text \<open>Both the contract and the owner may decrypt the value.\<close>

definition dual_grant :: "ghost_stake \<Rightarrow> euint32 \<Rightarrow> address \<Rightarrow> bool" where
  "dual_grant s v p \<longleftrightarrow> (handle v, thisAddress s) \<in> acl s \<and> (handle v, p) \<in> acl s"

text \<open>A slot of an identity holds a value issued by the capability, flagged and granted.\<close>

definition stored :: "ghost_stake \<Rightarrow> bucket \<Rightarrow> flags \<Rightarrow> address \<Rightarrow> bool" where
  "stored s b fl p \<longleftrightarrow>
     flags_read fl s p \<and> handle (bucket_read b s p) \<noteq> 0 \<and> dual_grant s (bucket_read b s p) p"

text \<open>A slot of an identity is either stored or was never written.\<close>

definition slot_inv :: "ghost_stake \<Rightarrow> bucket \<Rightarrow> flags \<Rightarrow> address \<Rightarrow> bool" where
  "slot_inv s b fl p \<longleftrightarrow>
     (if flags_read fl s p then stored s b fl p else bucket_read b s p = ZeroHash)"

text \<open>The seven entries of an identity are the same in two states.\<close>

definition same_account :: "ghost_stake \<Rightarrow> ghost_stake \<Rightarrow> address \<Rightarrow> bool" where
  "same_account s s' q \<longleftrightarrow>
     goldBalances s' q = goldBalances s q \<and> stakedBalances s' q = stakedBalances s q \<and>
     lastActionStatus s' q = lastActionStatus s q \<and> hasClaimed s' q = hasClaimed s q \<and>
     hasGoldBalance s' q = hasGoldBalance s q \<and> hasStakedBalance s' q = hasStakedBalance s q \<and>
     hasStatusRecord s' q = hasStatusRecord s q"

text \<open>
  What a call by \<open>p\<close> leaves alone: the entries of every other identity, the access
  grants recorded so far, and the configuration of the capability.
\<close>

definition touches_only :: "ghost_stake \<Rightarrow> ghost_stake \<Rightarrow> address \<Rightarrow> bool" where
  "touches_only s s' p \<longleftrightarrow>
     (\<forall>q. q \<noteq> p \<longrightarrow> same_account s s' q) \<and>
     acl s \<subseteq> acl s' \<and> attested s' = attested s \<and> thisAddress s' = thisAddress s"

text \<open>The invariant of one account in a state of the ledger.\<close>

definition account_inv :: "ghost_stake \<Rightarrow> address \<Rightarrow> bool" where
  "account_inv s p \<longleftrightarrow>
     slot_inv s GoldBalances HasGoldBalance p \<and>
     slot_inv s StakedBalances HasStakedBalance p \<and>
     slot_inv s LastActionStatus HasStatusRecord p \<and>
     holdings s p = (if hasClaimed s p then unat INITIAL_GRANT else 0)"

text \<open>
  The number of encryptions of 0 that \<open>stakeGold\<close> and \<open>withdrawStakedGold\<close> issue while
  they resolve the current balance and the current stake of the caller: one for each of
  the two slots whose existence flag is unset.
\<close>

definition resolveCount :: "ghost_stake \<Rightarrow> address \<Rightarrow> nat" where
  "resolveCount s p =
     (if hasGoldBalance s p then 0 else 1) + (if hasStakedBalance s p then 0 else 1)"

text \<open>The handles in the three slots of an identity are among those issued so far.\<close>

definition handles_inv :: "ghost_stake \<Rightarrow> address \<Rightarrow> bool" where
  "handles_inv s q \<longleftrightarrow>
     handle (goldBalances s q) \<le> handleCount s \<and>
     handle (stakedBalances s q) \<le> handleCount s \<and>
     handle (lastActionStatus s q) \<le> handleCount s"

text \<open>
  An input verifier for the examples: an empty proof does not verify, any other proof
  attests that the handle encrypts its own number.
\<close>

definition example_verifier :: "address \<Rightarrow> externalEuint32 \<Rightarrow> bytes \<Rightarrow> uint32 option" where
  "example_verifier sender h prf = (if prf = [] then None else Some (word_of_nat h))"

section \<open>Effects of the three mutating functions\<close>

lemmas fhe_defs = issue_def asEuint32_def FHE_add_def FHE_sub_def FHE_ge_def FHE_select_def
  allowThis_def allow_def fromExternal_def

lemmas view_defs = currentBalance_def currentStake_def dual_grant_def stored_def
  same_account_def touches_only_def

lemma stake_reverts: "attested s p h prf = None \<Longrightarrow> stakeGold p h prf s = Inl InvalidProof"
  by (simp add: stakeGold_def fromExternal_def)

lemma withdraw_reverts:
  "attested s p h prf = None \<Longrightarrow> withdrawStakedGold p h prf s = Inl InvalidProof"
  by (simp add: withdrawStakedGold_def fromExternal_def)

lemma claim_reverts: "hasClaimed s p \<Longrightarrow> claimInitialGold p s = Inl AlreadyClaimed"
  by (simp add: claimInitialGold_def)

lemma stake_ok:
  assumes "attested s p h prf = Some a"
  shows "\<exists>s'. stakeGold p h prf s = Inr (s', [GoldStaked p])
     \<and> plain (goldBalances s' p) =
         (if a \<le> currentBalance s p then currentBalance s p - a else currentBalance s p)
     \<and> plain (stakedBalances s' p) =
         (if a \<le> currentBalance s p then currentStake s p + a else currentStake s p)
     \<and> plain (lastActionStatus s' p) = (if a \<le> currentBalance s p then 0 else 1)
     \<and> hasClaimed s' p = hasClaimed s p
     \<and> stored s' GoldBalances HasGoldBalance p
     \<and> stored s' StakedBalances HasStakedBalance p
     \<and> stored s' LastActionStatus HasStatusRecord p
     \<and> touches_only s s' p"
  using assms
  by (simp add: stakeGold_def storeEncryptedValue_def fhe_defs view_defs Let_def
      STATUS_OK_def STATUS_INSUFFICIENT_BALANCE_def subset_insertI2)

lemma withdraw_ok:
  assumes "attested s p h prf = Some a"
  shows "\<exists>s'. withdrawStakedGold p h prf s = Inr (s', [GoldWithdrawn p])
     \<and> plain (goldBalances s' p) =
         (if a \<le> currentStake s p then currentBalance s p + a else currentBalance s p)
     \<and> plain (stakedBalances s' p) =
         (if a \<le> currentStake s p then currentStake s p - a else currentStake s p)
     \<and> plain (lastActionStatus s' p) = (if a \<le> currentStake s p then 0 else 2)
     \<and> hasClaimed s' p = hasClaimed s p
     \<and> stored s' GoldBalances HasGoldBalance p
     \<and> stored s' StakedBalances HasStakedBalance p
     \<and> stored s' LastActionStatus HasStatusRecord p
     \<and> touches_only s s' p"
  using assms
  by (simp add: withdrawStakedGold_def storeEncryptedValue_def fhe_defs view_defs Let_def
      STATUS_OK_def STATUS_INSUFFICIENT_STAKE_def subset_insertI2)

lemma claim_ok:
  assumes "\<not> hasClaimed s p"
  shows "\<exists>s'. claimInitialGold p s = Inr (s', [GoldClaimed p])
     \<and> plain (goldBalances s' p) = currentBalance s p + INITIAL_GRANT
     \<and> plain (lastActionStatus s' p) = 0
     \<and> hasClaimed s' p
     \<and> stakedBalances s' p = stakedBalances s p
     \<and> hasStakedBalance s' p = hasStakedBalance s p
     \<and> stored s' GoldBalances HasGoldBalance p
     \<and> stored s' LastActionStatus HasStatusRecord p
     \<and> touches_only s s' p"
  using assms
  by (simp add: claimInitialGold_def storeStatus_def storeEncryptedValue_def fhe_defs view_defs
      Let_def STATUS_OK_def subset_insertI2)


lemma decryptValue_plain: "decryptValue c = plain c"
  by (cases c) (simp add: decryptValue_def ZeroHash_def)

lemma move_holdings:
  fixes x y a :: uint32
  assumes "a \<le> x" and "unat x + unat y < 2 ^ 32"
  shows "unat (x - a) + unat (y + a) = unat x + unat y"
proof -
  have le: "unat a \<le> unat x"
    using assms(1) by (simp add: word_le_nat_alt)
  have sub: "unat (x - a) = unat x - unat a"
    using assms(1) by (rule unat_sub)
  have "unat y + unat a < 2 ^ LENGTH(32)"
    using le assms(2) by simp
  then have add: "unat (y + a) = unat y + unat a"
    by (simp only: unat_add_lem)
  show ?thesis
    using le sub add by simp
qed

lemma move_holdings_back:
  fixes x y a :: uint32
  assumes "a \<le> y" and "unat x + unat y < 2 ^ 32"
  shows "unat (x + a) + unat (y - a) = unat x + unat y"
  using move_holdings [of a y x] assms by (simp add: add.commute)

subsection \<open>One transaction\<close>

lemma touches_only_refl: "touches_only s s p"
  by (simp add: touches_only_def same_account_def)

lemma transact_reverted: "dispatch x c s = Inl e \<Longrightarrow> transact (x, c) s = (s, [], Some e)"
  by (simp add: transact_def)

lemma transact_committed:
  "dispatch x c s = Inr (s', evs) \<Longrightarrow> transact (x, c) s = (s', evs, None)"
  by (simp add: transact_def)

lemma dispatch_touches_only:
  assumes "dispatch x c s = Inr (s', evs)"
  shows "touches_only s s' x"
proof (cases c)
  case ClaimInitialGold
  show ?thesis
  proof (cases "hasClaimed s x")
    case True
    with assms ClaimInitialGold show ?thesis by (simp add: claim_reverts)
  next
    case False
    from claim_ok [OF False] assms ClaimInitialGold show ?thesis by auto
  qed
next
  case (StakeGold h pf)
  show ?thesis
  proof (cases "attested s x h pf")
    case None
    with assms StakeGold show ?thesis by (simp add: stake_reverts)
  next
    case (Some a)
    from stake_ok [OF Some] assms StakeGold show ?thesis by auto
  qed
next
  case (WithdrawStakedGold h pf)
  show ?thesis
  proof (cases "attested s x h pf")
    case None
    with assms WithdrawStakedGold show ?thesis by (simp add: withdraw_reverts)
  next
    case (Some a)
    from withdraw_ok [OF Some] assms WithdrawStakedGold show ?thesis by auto
  qed
qed

lemma transact_touches_only: "touches_only s (fst (transact (x, c) s)) x"
proof (cases "dispatch x c s")
  case (Inl e)
  then show ?thesis by (simp add: transact_reverted touches_only_refl)
next
  case (Inr r)
  then show ?thesis
    by (cases r) (simp add: transact_committed dispatch_touches_only)
qed


subsection \<open>The account invariant\<close>

lemma stored_slot_inv: "stored s b fl p \<Longrightarrow> slot_inv s b fl p"
  by (simp add: slot_inv_def stored_def)

lemma currentBalance_stored:
  "stored s GoldBalances HasGoldBalance p \<Longrightarrow> currentBalance s p = plain (goldBalances s p)"
  by (simp add: stored_def currentBalance_def)

lemma currentStake_stored:
  "stored s StakedBalances HasStakedBalance p \<Longrightarrow> currentStake s p = plain (stakedBalances s p)"
  by (simp add: stored_def currentStake_def)

lemma slot_inv_kept:
  assumes "acl s \<subseteq> acl s'" and "thisAddress s' = thisAddress s"
    and "bucket_read b s' q = bucket_read b s q" and "flags_read fl s' q = flags_read fl s q"
    and "slot_inv s b fl q"
  shows "slot_inv s' b fl q"
  using assms by (auto simp: slot_inv_def stored_def dual_grant_def)

lemma account_inv_other:
  assumes t: "touches_only s s' x" and ne: "q \<noteq> x" and inv: "account_inv s q"
  shows "account_inv s' q"
proof -
  from t ne have same: "same_account s s' q"
    and sub: "acl s \<subseteq> acl s'" and cfg: "thisAddress s' = thisAddress s"
    by (simp_all add: touches_only_def)
  have "slot_inv s' GoldBalances HasGoldBalance q"
    using sub cfg inv same by (intro slot_inv_kept [of s s']) (simp_all add: account_inv_def same_account_def)
  moreover have "slot_inv s' StakedBalances HasStakedBalance q"
    using sub cfg inv same by (intro slot_inv_kept [of s s']) (simp_all add: account_inv_def same_account_def)
  moreover have "slot_inv s' LastActionStatus HasStatusRecord q"
    using sub cfg inv same by (intro slot_inv_kept [of s s']) (simp_all add: account_inv_def same_account_def)
  moreover have "holdings s' q = holdings s q" and "hasClaimed s' q = hasClaimed s q"
    using same by (simp_all add: holdings_def currentBalance_def currentStake_def same_account_def)
  ultimately show ?thesis
    using inv by (simp add: account_inv_def)
qed

lemma holdings_bound: "account_inv s p \<Longrightarrow> holdings s p < 2 ^ 32"
  by (simp add: account_inv_def INITIAL_GRANT_def)

lemma stake_keeps_inv:
  assumes att: "attested s p h prf = Some a" and inv: "account_inv s p"
    and run: "stakeGold p h prf s = Inr (s', evs)"
  shows "account_inv s' p \<and> holdings s' p = holdings s p"
proof -
  from stake_ok [OF att] run have
    gold: "plain (goldBalances s' p) =
         (if a \<le> currentBalance s p then currentBalance s p - a else currentBalance s p)"
    and staked: "plain (stakedBalances s' p) =
         (if a \<le> currentBalance s p then currentStake s p + a else currentStake s p)"
    and claimed: "hasClaimed s' p = hasClaimed s p"
    and st: "stored s' GoldBalances HasGoldBalance p" "stored s' StakedBalances HasStakedBalance p"
      "stored s' LastActionStatus HasStatusRecord p"
    by auto
  have "unat (currentBalance s p) + unat (currentStake s p) < 2 ^ 32"
    using holdings_bound [OF inv] by (simp add: holdings_def)
  then have "holdings s' p = holdings s p"
    using gold staked
    by (simp add: holdings_def currentBalance_stored [OF st(1)] currentStake_stored [OF st(2)]
        move_holdings)
  then show ?thesis
    using inv claimed st by (simp add: account_inv_def stored_slot_inv)
qed

lemma withdraw_keeps_inv:
  assumes att: "attested s p h prf = Some a" and inv: "account_inv s p"
    and run: "withdrawStakedGold p h prf s = Inr (s', evs)"
  shows "account_inv s' p \<and> holdings s' p = holdings s p"
proof -
  from withdraw_ok [OF att] run have
    gold: "plain (goldBalances s' p) =
         (if a \<le> currentStake s p then currentBalance s p + a else currentBalance s p)"
    and staked: "plain (stakedBalances s' p) =
         (if a \<le> currentStake s p then currentStake s p - a else currentStake s p)"
    and claimed: "hasClaimed s' p = hasClaimed s p"
    and st: "stored s' GoldBalances HasGoldBalance p" "stored s' StakedBalances HasStakedBalance p"
      "stored s' LastActionStatus HasStatusRecord p"
    by auto
  have "unat (currentBalance s p) + unat (currentStake s p) < 2 ^ 32"
    using holdings_bound [OF inv] by (simp add: holdings_def)
  then have "holdings s' p = holdings s p"
    using gold staked
    by (simp add: holdings_def currentBalance_stored [OF st(1)] currentStake_stored [OF st(2)]
        move_holdings_back)
  then show ?thesis
    using inv claimed st by (simp add: account_inv_def stored_slot_inv)
qed

lemma unclaimed_empty:
  assumes "account_inv s p" and "\<not> hasClaimed s p"
  shows "currentBalance s p = 0" and "currentStake s p = 0"
  using assms by (simp_all add: account_inv_def holdings_def unat_eq_zero)

lemma claim_keeps_inv:
  assumes un: "\<not> hasClaimed s p" and inv: "account_inv s p"
    and run: "claimInitialGold p s = Inr (s', evs)"
  shows "account_inv s' p"
proof -
  from claim_ok [OF un] run have
    gold: "plain (goldBalances s' p) = currentBalance s p + INITIAL_GRANT"
    and claimed: "hasClaimed s' p"
    and same: "stakedBalances s' p = stakedBalances s p" "hasStakedBalance s' p = hasStakedBalance s p"
    and st: "stored s' GoldBalances HasGoldBalance p" "stored s' LastActionStatus HasStatusRecord p"
    and t: "touches_only s s' p"
    by auto
  have "slot_inv s' StakedBalances HasStakedBalance p"
    using t inv same by (intro slot_inv_kept [of s s']) (simp_all add: account_inv_def touches_only_def)
  moreover have "currentStake s' p = currentStake s p"
    using same by (simp add: currentStake_def)
  then have "currentStake s' p = 0"
    using unclaimed_empty(2) [OF inv un] by simp
  moreover have "currentBalance s' p = INITIAL_GRANT"
    using gold unclaimed_empty(1) [OF inv un] by (simp add: currentBalance_stored [OF st(1)])
  ultimately show ?thesis
    using claimed st by (simp add: account_inv_def stored_slot_inv holdings_def)
qed

lemma dispatch_keeps_inv:
  assumes inv: "account_inv s q" and run: "dispatch x c s = Inr (s', evs)"
  shows "account_inv s' q"
proof (cases "q = x")
  case False
  from dispatch_touches_only [OF run] False inv show ?thesis
    by (rule account_inv_other)
next
  case True
  show ?thesis
  proof (cases c)
    case ClaimInitialGold
    then have c: "claimInitialGold q s = Inr (s', evs)"
      using run True by simp
    then have "\<not> hasClaimed s q"
      by (auto simp: claim_reverts)
    then show ?thesis
      using inv c by (rule claim_keeps_inv)
  next
    case (StakeGold h pf)
    then have c: "stakeGold q h pf s = Inr (s', evs)"
      using run True by simp
    then obtain a where "attested s q h pf = Some a"
      by (cases "attested s q h pf") (auto simp: stake_reverts)
    then show ?thesis
      using inv c stake_keeps_inv by blast
  next
    case (WithdrawStakedGold h pf)
    then have c: "withdrawStakedGold q h pf s = Inr (s', evs)"
      using run True by simp
    then obtain a where "attested s q h pf = Some a"
      by (cases "attested s q h pf") (auto simp: withdraw_reverts)
    then show ?thesis
      using inv c withdraw_keeps_inv by blast
  qed
qed

lemma transact_keeps_inv: "account_inv s q \<Longrightarrow> account_inv (fst (transact t s)) q"
proof (cases t)
  case (Pair x c)
  assume inv: "account_inv s q"
  show ?thesis
  proof (cases "dispatch x c s")
    case (Inl e)
    then show ?thesis using inv Pair by (simp add: transact_reverted)
  next
    case (Inr r)
    then show ?thesis
      using inv Pair by (cases r) (simp add: transact_committed dispatch_keeps_inv)
  qed
qed

lemma fst_run_Cons: "fst (run (t # ts) s) = fst (run ts (fst (transact t s)))"
  by (simp split: prod.splits)

lemma run_keeps_inv: "account_inv s q \<Longrightarrow> account_inv (fst (run txs s)) q"
proof (induction txs arbitrary: s)
  case Nil
  then show ?case by simp
next
  case (Cons t txs)
  from Cons.IH [OF transact_keeps_inv [OF Cons.prems, of t]]
  show ?case by (simp only: fst_run_Cons)
qed

lemma deployed_inv: "account_inv (deployed this att) q"
  by (simp add: account_inv_def slot_inv_def deployed_def holdings_def currentBalance_def
      currentStake_def)

lemma after_inv: "account_inv (after this att txs) q"
  by (simp add: after_def run_keeps_inv deployed_inv)

subsection \<open>Histories\<close>

lemma run_append:
  "run (xs @ ys) s =
     (case run xs s of (s', evs) \<Rightarrow> (case run ys s' of (s'', evs') \<Rightarrow> (s'', evs @ evs')))"
  by (induction xs arbitrary: s) (auto split: prod.splits)

lemma fst_run_append: "fst (run (xs @ ys) s) = fst (run ys (fst (run xs s)))"
  by (simp add: run_append split: prod.splits)

lemma snd_run_append:
  "snd (run (xs @ ys) s) = snd (run xs s) @ snd (run ys (fst (run xs s)))"
  by (simp add: run_append split: prod.splits)

lemma snd_run_Cons:
  "snd (run (t # ts) s) = fst (snd (transact t s)) @ snd (run ts (fst (transact t s)))"
  by (simp split: prod.splits)

lemma claimed_transact:
  "hasClaimed (fst (transact t s)) q \<longleftrightarrow> hasClaimed s q \<or> t = (q, ClaimInitialGold)"
proof (cases t)
  case (Pair x c)
  show ?thesis
  proof (cases c)
    case ClaimInitialGold
    show ?thesis
    proof (cases "hasClaimed s x")
      case True
      then show ?thesis
        using Pair ClaimInitialGold by (auto simp: transact_def claim_reverts)
    next
      case False
      from claim_ok [OF False] show ?thesis
        using Pair ClaimInitialGold False
        by (auto simp: transact_def touches_only_def same_account_def)
    qed
  next
    case (StakeGold h pf)
    show ?thesis
    proof (cases "attested s x h pf")
      case None
      then show ?thesis
        using Pair StakeGold by (simp add: transact_def stake_reverts)
    next
      case (Some a)
      from stake_ok [OF Some] show ?thesis
        using Pair StakeGold
        by (auto simp: transact_def touches_only_def same_account_def)
    qed
  next
    case (WithdrawStakedGold h pf)
    show ?thesis
    proof (cases "attested s x h pf")
      case None
      then show ?thesis
        using Pair WithdrawStakedGold by (simp add: transact_def withdraw_reverts)
    next
      case (Some a)
      from withdraw_ok [OF Some] show ?thesis
        using Pair WithdrawStakedGold
        by (auto simp: transact_def touches_only_def same_account_def)
    qed
  qed
qed

lemma claimed_run:
  "hasClaimed (fst (run txs s)) q \<longleftrightarrow> hasClaimed s q \<or> (q, ClaimInitialGold) \<in> set txs"
  by (induction txs arbitrary: s) (auto simp: fst_run_Cons claimed_transact simp del: run.simps(2))

lemma claimed_after:
  "hasClaimed (after this att txs) q \<longleftrightarrow> (q, ClaimInitialGold) \<in> set txs"
  by (simp add: after_def claimed_run) (simp add: deployed_def)

lemma events_transact:
  "count_list (fst (snd (transact t s))) (GoldClaimed q) =
     (if t = (q, ClaimInitialGold) \<and> \<not> hasClaimed s q then 1 else 0)"
proof (cases t)
  case (Pair x c)
  show ?thesis
  proof (cases c)
    case ClaimInitialGold
    show ?thesis
    proof (cases "hasClaimed s x")
      case True
      then show ?thesis
        using Pair ClaimInitialGold by (auto simp: transact_def claim_reverts)
    next
      case False
      from claim_ok [OF False] show ?thesis
        using Pair ClaimInitialGold False by (auto simp: transact_def)
    qed
  next
    case (StakeGold h pf)
    show ?thesis
    proof (cases "attested s x h pf")
      case None
      then show ?thesis
        using Pair StakeGold by (simp add: transact_def stake_reverts)
    next
      case (Some a)
      from stake_ok [OF Some] show ?thesis
        using Pair StakeGold by (auto simp: transact_def)
    qed
  next
    case (WithdrawStakedGold h pf)
    show ?thesis
    proof (cases "attested s x h pf")
      case None
      then show ?thesis
        using Pair WithdrawStakedGold by (simp add: transact_def withdraw_reverts)
    next
      case (Some a)
      from withdraw_ok [OF Some] show ?thesis
        using Pair WithdrawStakedGold by (auto simp: transact_def)
    qed
  qed
qed

lemma events_run:
  "count_list (snd (run txs s)) (GoldClaimed q) =
     (if \<not> hasClaimed s q \<and> (q, ClaimInitialGold) \<in> set txs then 1 else 0)"
proof (induction txs arbitrary: s)
  case Nil
  show ?case by simp
next
  case (Cons t txs)
  show ?case
    by (simp only: snd_run_Cons count_list_append Cons.IH events_transact claimed_transact)
      auto
qed

lemma config_transact:
  "attested (fst (transact t s)) = attested s \<and> thisAddress (fst (transact t s)) = thisAddress s"
  using transact_touches_only [of s "fst t" "snd t"] by (simp add: touches_only_def)

lemma config_run:
  "attested (fst (run txs s)) = attested s \<and> thisAddress (fst (run txs s)) = thisAddress s"
  by (induction txs arbitrary: s) (simp_all add: fst_run_Cons config_transact del: run.simps(2))

lemma config_after:
  "attested (after this att txs) = att" "thisAddress (after this att txs) = this"
  by (simp_all add: after_def config_run) (simp_all add: deployed_def)

lemma untouched_transact:
  assumes "p \<noteq> fst t"
  shows "same_account s (fst (transact t s)) p"
  using transact_touches_only [of s "fst t" "snd t"] assms by (simp add: touches_only_def)

lemma same_account_trans:
  "same_account s s' p \<Longrightarrow> same_account s' s'' p \<Longrightarrow> same_account s s'' p"
  by (simp add: same_account_def)

lemma untouched_run:
  assumes "p \<notin> fst ` set txs"
  shows "same_account s (fst (run txs s)) p"
  using assms
proof (induction txs arbitrary: s)
  case Nil
  show ?case by (simp add: same_account_def)
next
  case (Cons t txs)
  then have "p \<noteq> fst t" and "p \<notin> fst ` set txs"
    by auto
  then show ?case
    using Cons.IH [of "fst (transact t s)"] untouched_transact [of p t s]
    by (simp only: fst_run_Cons) (blast intro: same_account_trans)
qed

lemma untouched_after:
  assumes "p \<notin> fst ` set txs"
  shows "goldBalances (after this att txs) p = ZeroHash"
    and "stakedBalances (after this att txs) p = ZeroHash"
    and "lastActionStatus (after this att txs) p = ZeroHash"
    and "\<not> hasGoldBalance (after this att txs) p"
    and "\<not> hasStakedBalance (after this att txs) p"
    and "\<not> hasStatusRecord (after this att txs) p"
    and "\<not> hasClaimed (after this att txs) p"
  using untouched_run [OF assms, of "deployed this att"]
  by (simp_all add: after_def same_account_def) (simp_all add: deployed_def)

subsection \<open>The scenarios of the test suite\<close>

lemmas run_defs = after_def deployed_def transact_def claimInitialGold_def stakeGold_def
  withdrawStakedGold_def storeStatus_def storeEncryptedValue_def fhe_defs Let_def
  example_verifier_def INITIAL_GRANT_def STATUS_OK_def STATUS_INSUFFICIENT_BALANCE_def
  STATUS_INSUFFICIENT_STAKE_def ZeroHash_def currentBalance_def currentStake_def

lemma scenario_claim:
  "currentBalance (after 9 example_verifier [(1, ClaimInitialGold)]) 1 = 100"
  "currentStake (after 9 example_verifier [(1, ClaimInitialGold)]) 1 = 0"
  by (simp_all add: run_defs)

lemma scenario_stake:
  "currentBalance (after 9 example_verifier [(1, ClaimInitialGold), (1, StakeGold 40 [1])]) 1 = 60"
  "currentStake (after 9 example_verifier [(1, ClaimInitialGold), (1, StakeGold 40 [1])]) 1 = 40"
  by (simp_all add: run_defs)

subsection \<open>Reading the current values\<close>

lemma current_reads:
  assumes "account_inv s p"
  shows "currentBalance s p = decryptValue (getGoldBalance s p)"
    and "currentStake s p = decryptValue (getStakedBalance s p)"
  using assms
  by (auto simp: account_inv_def slot_inv_def currentBalance_def currentStake_def
      decryptValue_plain getGoldBalance_def getStakedBalance_def ZeroHash_def split: if_splits)

lemma no_wrap:
  fixes x y a :: uint32
  assumes "a \<le> x" and "unat x + unat y < 2 ^ 32"
  shows "unat (x - a) = unat x - unat a" and "unat (y + a) = unat y + unat a"
proof -
  show "unat (x - a) = unat x - unat a"
    using assms(1) by (rule unat_sub)
  have "unat a \<le> unat x"
    using assms(1) by (simp add: word_le_nat_alt)
  then have "unat y + unat a < 2 ^ LENGTH(32)"
    using assms(2) by simp
  then show "unat (y + a) = unat y + unat a"
    by (simp only: unat_add_lem)
qed

subsection \<open>The handles a call issues\<close>

lemma stake_handles:
  assumes "attested s p h prf = Some a"
  shows "\<exists>s'. stakeGold p h prf s = Inr (s', [GoldStaked p])
     \<and> handleCount s' = handleCount s + resolveCount s p + 8
     \<and> handle (goldBalances s' p) = handleCount s + resolveCount s p + 4
     \<and> handle (stakedBalances s' p) = handleCount s + resolveCount s p + 5
     \<and> handle (lastActionStatus s' p) = handleCount s + resolveCount s p + 8"
  using assms
  by (simp add: stakeGold_def storeEncryptedValue_def fhe_defs Let_def resolveCount_def)

lemma withdraw_handles:
  assumes "attested s p h prf = Some a"
  shows "\<exists>s'. withdrawStakedGold p h prf s = Inr (s', [GoldWithdrawn p])
     \<and> handleCount s' = handleCount s + resolveCount s p + 8
     \<and> handle (stakedBalances s' p) = handleCount s + resolveCount s p + 4
     \<and> handle (goldBalances s' p) = handleCount s + resolveCount s p + 5
     \<and> handle (lastActionStatus s' p) = handleCount s + resolveCount s p + 8"
  using assms
  by (simp add: withdrawStakedGold_def storeEncryptedValue_def fhe_defs Let_def resolveCount_def)

lemma claim_handles:
  assumes "\<not> hasClaimed s p"
  shows "\<exists>s'. claimInitialGold p s = Inr (s', [GoldClaimed p])
     \<and> handleCount s \<le> handleCount s'
     \<and> handle (goldBalances s' p) \<le> handleCount s'
     \<and> handle (lastActionStatus s' p) \<le> handleCount s'"
  using assms
  by (simp add: claimInitialGold_def storeStatus_def storeEncryptedValue_def fhe_defs Let_def)

lemma dispatch_keeps_handles:
  assumes inv: "handles_inv s q" and run: "dispatch x c s = Inr (s', evs)"
  shows "handles_inv s' q"
proof (cases c)
  case ClaimInitialGold
  then have c: "claimInitialGold x s = Inr (s', evs)"
    using run by simp
  then have un: "\<not> hasClaimed s x"
    by (auto simp: claim_reverts)
  from claim_handles [OF un] c have
    mono: "handleCount s \<le> handleCount s'"
    and new: "handle (goldBalances s' x) \<le> handleCount s'"
      "handle (lastActionStatus s' x) \<le> handleCount s'"
    by auto
  from claim_ok [OF un] c have
    same: "stakedBalances s' x = stakedBalances s x" and t: "touches_only s s' x"
    by auto
  show ?thesis
  proof (cases "q = x")
    case True
    with inv mono new same show ?thesis
      by (simp add: handles_inv_def)
  next
    case False
    with t inv mono show ?thesis
      by (simp add: handles_inv_def touches_only_def same_account_def)
  qed
next
  case (StakeGold h pf)
  then have c: "stakeGold x h pf s = Inr (s', evs)"
    using run by simp
  then obtain a where att: "attested s x h pf = Some a"
    by (cases "attested s x h pf") (auto simp: stake_reverts)
  from stake_handles [OF att] c have
    cnt: "handleCount s' = handleCount s + resolveCount s x + 8"
    and new: "handle (goldBalances s' x) = handleCount s + resolveCount s x + 4"
      "handle (stakedBalances s' x) = handleCount s + resolveCount s x + 5"
      "handle (lastActionStatus s' x) = handleCount s + resolveCount s x + 8"
    by auto
  from stake_ok [OF att] c have t: "touches_only s s' x"
    by auto
  show ?thesis
  proof (cases "q = x")
    case True
    with cnt new show ?thesis
      by (simp add: handles_inv_def)
  next
    case False
    with t inv cnt show ?thesis
      by (simp add: handles_inv_def touches_only_def same_account_def)
  qed
next
  case (WithdrawStakedGold h pf)
  then have c: "withdrawStakedGold x h pf s = Inr (s', evs)"
    using run by simp
  then obtain a where att: "attested s x h pf = Some a"
    by (cases "attested s x h pf") (auto simp: withdraw_reverts)
  from withdraw_handles [OF att] c have
    cnt: "handleCount s' = handleCount s + resolveCount s x + 8"
    and new: "handle (goldBalances s' x) = handleCount s + resolveCount s x + 5"
      "handle (stakedBalances s' x) = handleCount s + resolveCount s x + 4"
      "handle (lastActionStatus s' x) = handleCount s + resolveCount s x + 8"
    by auto
  from withdraw_ok [OF att] c have t: "touches_only s s' x"
    by auto
  show ?thesis
  proof (cases "q = x")
    case True
    with cnt new show ?thesis
      by (simp add: handles_inv_def)
  next
    case False
    with t inv cnt show ?thesis
      by (simp add: handles_inv_def touches_only_def same_account_def)
  qed
qed

lemma transact_keeps_handles: "handles_inv s q \<Longrightarrow> handles_inv (fst (transact t s)) q"
proof (cases t)
  case (Pair x c)
  assume inv: "handles_inv s q"
  show ?thesis
  proof (cases "dispatch x c s")
    case (Inl e)
    then show ?thesis using inv Pair by (simp add: transact_reverted)
  next
    case (Inr r)
    then show ?thesis
      using inv Pair by (cases r) (simp add: transact_committed dispatch_keeps_handles)
  qed
qed

lemma run_keeps_handles: "handles_inv s q \<Longrightarrow> handles_inv (fst (run txs s)) q"
proof (induction txs arbitrary: s)
  case Nil
  then show ?case by simp
next
  case (Cons t txs)
  from Cons.IH [OF transact_keeps_handles [OF Cons.prems, of t]]
  show ?case by (simp only: fst_run_Cons)
qed

lemma deployed_handles: "handles_inv (deployed this att) q"
  by (simp add: handles_inv_def deployed_def ZeroHash_def)

lemma after_handles: "handles_inv (after this att txs) q"
  by (simp add: after_def run_keeps_handles deployed_handles)

section \<open>The properties of the specification\<close>

text \<open>
  C1 (conservation). Take any history from deployment and extend it by any transactions among
  which the identity makes no grant call: in particular by any sequence of stake and
  withdraw calls of that identity, of any amounts, sufficient or not, with proofs that
  verify or not. The sum of the decrypted balance and the decrypted stake of the identity,
  taken in the natural numbers, is the same after the extension as before it, and it equals
  the sum of the grants that the event log of the whole history records for the identity.
\<close>

theorem conservation:
  assumes "(p, ClaimInitialGold) \<notin> set calls"
  shows "holdings (after this att (txs @ calls)) p = holdings (after this att txs) p \<and>
         holdings (after this att (txs @ calls)) p =
           granted (snd (run (txs @ calls) (deployed this att))) p \<and>
         holdings (after this att (txs @ calls)) p =
           unat (decryptValue (getGoldBalance (after this att (txs @ calls)) p)) +
           unat (decryptValue (getStakedBalance (after this att (txs @ calls)) p))"
proof -
  have h: "holdings (after this att hist) p = (if (p, ClaimInitialGold) \<in> set hist then 100 else 0)"
    for hist
    using after_inv [of this att hist p]
    by (simp add: account_inv_def claimed_after INITIAL_GRANT_def)
  have g: "granted (snd (run hist (deployed this att))) p =
      (if (p, ClaimInitialGold) \<in> set hist then 100 else 0)" for hist
    by (simp add: granted_def events_run INITIAL_GRANT_def) (simp add: deployed_def)
  have r: "holdings (after this att hist) p =
      unat (decryptValue (getGoldBalance (after this att hist) p)) +
      unat (decryptValue (getStakedBalance (after this att hist) p))" for hist
    using current_reads [OF after_inv [of this att hist p]] by (simp add: holdings_def)
  from assms show ?thesis
    using r [of "txs @ calls"] by (simp add: h g)
qed

theorem conservation_witness:
  "((1 :: address), ClaimInitialGold) \<notin>
     set [(1, StakeGold 40 [1]), (1, WithdrawStakedGold 80 [1]), (1, WithdrawStakedGold 20 [])] \<and>
   holdings (after 9 example_verifier [(1, ClaimInitialGold)]) 1 = 100 \<and>
   holdings (after 9 example_verifier
     ([(1, ClaimInitialGold)] @
      [(1, StakeGold 40 [1]), (1, WithdrawStakedGold 80 [1]), (1, WithdrawStakedGold 20 [])])) 1 = 100 \<and>
   granted (snd (run ([(1, ClaimInitialGold)] @
      [(1, StakeGold 40 [1]), (1, WithdrawStakedGold 80 [1]), (1, WithdrawStakedGold 20 [])])
      (deployed 9 example_verifier))) 1 = 100"
proof -
  have h: "((1 :: address), ClaimInitialGold) \<notin>
     set [(1, StakeGold 40 [1]), (1, WithdrawStakedGold 80 [1]), (1, WithdrawStakedGold 20 [])]"
    by simp
  have s: "holdings (after 9 example_verifier [(1, ClaimInitialGold)]) 1 = 100"
    using scenario_claim by (simp add: holdings_def)
  show ?thesis
    using h s conservation [OF h, of 9 example_verifier "[(1, ClaimInitialGold)]"]
    by (simp del: run.simps append.simps)
qed



text \<open>
  C3 (withdraw semantics). In a state reached from deployment, a \<open>withdrawStakedGold\<close>
  call whose proof verifies for the amount \<open>a\<close> commits and emits GoldWithdrawn exactly
  once, whether or not the stake suffices. If the current stake is at least \<open>a\<close>, the stake
  then decrypts to the current stake minus \<open>a\<close>, the balance to the current balance plus
  \<open>a\<close> (as numbers, without wrap-around) and the status to 0; otherwise balance and stake
  decrypt to what they decrypted to before the call and the status decrypts to 2.
\<close>

theorem withdraw_semantics:
  assumes "att p h prf = Some a"
  shows "(let s = after this att txs; cb = currentBalance s p; cs = currentStake s p in
           cb = decryptValue (getGoldBalance s p) \<and> cs = decryptValue (getStakedBalance s p) \<and>
           (case withdrawStakedGold p h prf s of
              Inl e \<Rightarrow> False
            | Inr (s', evs) \<Rightarrow>
                evs = [GoldWithdrawn p] \<and>
                (if a \<le> cs then
                   decryptValue (getStakedBalance s' p) = cs - a \<and>
                   decryptValue (getGoldBalance s' p) = cb + a \<and>
                   unat (decryptValue (getStakedBalance s' p)) = unat cs - unat a \<and>
                   unat (decryptValue (getGoldBalance s' p)) = unat cb + unat a \<and>
                   decryptValue (getLastActionStatus s' p) = 0
                 else
                   decryptValue (getGoldBalance s' p) = cb \<and>
                   decryptValue (getStakedBalance s' p) = cs \<and>
                   decryptValue (getLastActionStatus s' p) = 2)))"
proof -
  let ?s = "after this att txs"
  have att: "attested ?s p h prf = Some a"
    using assms by (simp add: config_after)
  have inv: "account_inv ?s p"
    by (rule after_inv)
  have bound: "unat (currentStake ?s p) + unat (currentBalance ?s p) < 2 ^ 32"
    using holdings_bound [OF inv] by (simp add: holdings_def)
  from withdraw_ok [OF att] obtain s' where
    run: "withdrawStakedGold p h prf ?s = Inr (s', [GoldWithdrawn p])"
    and gold: "plain (goldBalances s' p) =
         (if a \<le> currentStake ?s p then currentBalance ?s p + a else currentBalance ?s p)"
    and staked: "plain (stakedBalances s' p) =
         (if a \<le> currentStake ?s p then currentStake ?s p - a else currentStake ?s p)"
    and status: "plain (lastActionStatus s' p) = (if a \<le> currentStake ?s p then 0 else 2)"
    by auto
  have post: "decryptValue (getGoldBalance s' p) =
         (if a \<le> currentStake ?s p then currentBalance ?s p + a else currentBalance ?s p)"
    "decryptValue (getStakedBalance s' p) =
         (if a \<le> currentStake ?s p then currentStake ?s p - a else currentStake ?s p)"
    "decryptValue (getLastActionStatus s' p) = (if a \<le> currentStake ?s p then 0 else 2)"
    using gold staked status
    by (simp_all add: decryptValue_plain getGoldBalance_def getStakedBalance_def
        getLastActionStatus_def)
  have pre: "currentBalance ?s p = decryptValue (getGoldBalance ?s p)"
    "currentStake ?s p = decryptValue (getStakedBalance ?s p)"
    by (rule current_reads [OF inv])+
  show ?thesis
  proof (cases "a \<le> currentStake ?s p")
    case True
    from no_wrap [OF True bound] True post show ?thesis
      by (simp add: Let_def run pre [symmetric])
  next
    case False
    with post show ?thesis
      by (simp add: Let_def run pre [symmetric])
  qed
qed

theorem withdraw_semantics_witness:
  "example_verifier 1 20 [1] = Some 20 \<and> example_verifier 1 80 [1] = Some 80 \<and>
   (let s = after 9 example_verifier [(1, ClaimInitialGold), (1, StakeGold 40 [1])] in
      currentBalance s 1 = 60 \<and> currentStake s 1 = 40 \<and>
      (case withdrawStakedGold 1 20 [1] s of
         Inl e \<Rightarrow> False
       | Inr (s', evs) \<Rightarrow>
           evs = [GoldWithdrawn 1] \<and> decryptValue (getGoldBalance s' 1) = 80 \<and>
           decryptValue (getStakedBalance s' 1) = 20 \<and>
           decryptValue (getLastActionStatus s' 1) = 0) \<and>
      (case withdrawStakedGold 1 80 [1] s of
         Inl e \<Rightarrow> False
       | Inr (s', evs) \<Rightarrow>
           evs = [GoldWithdrawn 1] \<and> decryptValue (getGoldBalance s' 1) = 60 \<and>
           decryptValue (getStakedBalance s' 1) = 40 \<and>
           decryptValue (getLastActionStatus s' 1) = 2))"
proof -
  have h: "example_verifier 1 20 [1] = Some 20" "example_verifier 1 80 [1] = Some 80"
    by (simp_all add: example_verifier_def)
  show ?thesis
    using h scenario_stake
      withdraw_semantics [of example_verifier 1 20 "[1]" 20 9
        "[(1, ClaimInitialGold), (1, StakeGold 40 [1])]"]
      withdraw_semantics [of example_verifier 1 80 "[1]" 80 9
        "[(1, ClaimInitialGold), (1, StakeGold 40 [1])]"]
    by (auto simp: Let_def split: sum.splits prod.splits)
qed

text \<open>
  C4 (one-time claim, abort atomicity). \<open>claimInitialGold\<close> aborts exactly when
  \<open>hasClaimed\<close> of the caller is already true, and then with the error AlreadyClaimed; the
  aborted transaction emits no event and leaves the whole state as it was. After any
  history in which the identity has made a grant call, a further grant call by it changes
  neither the state (so the balance of the first call stays) nor the event log.
\<close>

theorem second_claim_aborts:
  "(isl (claimInitialGold p s) \<longleftrightarrow> hasClaimed s p) \<and>
   (hasClaimed s p \<longrightarrow>
      claimInitialGold p s = Inl AlreadyClaimed \<and>
      transact (p, ClaimInitialGold) s = (s, [], Some AlreadyClaimed)) \<and>
   ((p, ClaimInitialGold) \<in> set txs \<longrightarrow>
      run (txs @ [(p, ClaimInitialGold)]) (deployed this att) = run txs (deployed this att))"
proof -
  have a: "isl (claimInitialGold p s) \<longleftrightarrow> hasClaimed s p"
    using claim_ok [of s p] by (cases "hasClaimed s p") (auto simp: claim_reverts)
  have b: "transact (p, ClaimInitialGold) s' = (s', [], Some AlreadyClaimed)"
    if "hasClaimed s' p" for s'
    using that by (simp add: transact_def claim_reverts)
  have c: "run (txs @ [(p, ClaimInitialGold)]) (deployed this att) = run txs (deployed this att)"
    if "(p, ClaimInitialGold) \<in> set txs"
  proof -
    have "hasClaimed (fst (run txs (deployed this att))) p"
      using that claimed_after [of this att txs p] by (simp add: after_def)
    from b [OF this] show ?thesis
      by (cases "run txs (deployed this att)") (simp add: run_append)
  qed
  show ?thesis
    using a b c by (simp add: claim_reverts)
qed

theorem second_claim_aborts_witness:
  "hasClaimed (after 9 example_verifier [(1, ClaimInitialGold)]) 1 \<and>
   claimInitialGold 1 (after 9 example_verifier [(1, ClaimInitialGold)]) = Inl AlreadyClaimed \<and>
   run [(1, ClaimInitialGold), (1, ClaimInitialGold)] (deployed 9 example_verifier) =
     run [(1, ClaimInitialGold)] (deployed 9 example_verifier) \<and>
   currentBalance (after 9 example_verifier [(1, ClaimInitialGold), (1, ClaimInitialGold)]) 1 = 100"
proof -
  have h: "hasClaimed (after 9 example_verifier [(1, ClaimInitialGold)]) 1"
    by (simp add: claimed_after)
  have m: "((1 :: address), ClaimInitialGold) \<in> set [(1, ClaimInitialGold)]"
    by simp
  have r: "run ([(1, ClaimInitialGold)] @ [(1, ClaimInitialGold)]) (deployed 9 example_verifier) =
     run [(1, ClaimInitialGold)] (deployed 9 example_verifier)"
    using second_claim_aborts [of 1 "after 9 example_verifier [(1, ClaimInitialGold)]"
        "[(1, ClaimInitialGold)]" 9 example_verifier] m
    by blast
  have "claimInitialGold 1 (after 9 example_verifier [(1, ClaimInitialGold)]) = Inl AlreadyClaimed"
    using second_claim_aborts [of 1 "after 9 example_verifier [(1, ClaimInitialGold)]"
        "[(1, ClaimInitialGold)]" 9 example_verifier] h
    by blast
  moreover have "currentBalance (after 9 example_verifier [(1, ClaimInitialGold), (1, ClaimInitialGold)]) 1 = 100"
    using r scenario_claim(1) by (simp add: after_def del: run.simps)
  ultimately show ?thesis
    using h r by (simp del: run.simps)
qed

text \<open>
  C5 (grant effect). In a state reached from deployment by a history in which the identity
  made no grant call (a fresh identity in particular), \<open>claimInitialGold\<close> commits, emits
  GoldClaimed, and afterwards the balance decrypts to 100 (the grant added to the current
  balance), the stake decrypts to 0, the status decrypts to 0 and the claimed flag is set.
\<close>

theorem grant_effect:
  assumes "(p, ClaimInitialGold) \<notin> set txs"
  shows "(let s = after this att txs in
           case claimInitialGold p s of
             Inl e \<Rightarrow> False
           | Inr (s', evs) \<Rightarrow>
               evs = [GoldClaimed p] \<and>
               decryptValue (getGoldBalance s' p) = currentBalance s p + INITIAL_GRANT \<and>
               decryptValue (getGoldBalance s' p) = 100 \<and>
               decryptValue (getStakedBalance s' p) = 0 \<and>
               decryptValue (getLastActionStatus s' p) = 0 \<and>
               hasClaimedInitialGold s' p)"
proof -
  let ?s = "after this att txs"
  have un: "\<not> hasClaimed ?s p"
    using assms by (simp add: claimed_after)
  have inv: "account_inv ?s p"
    by (rule after_inv)
  from claim_ok [OF un] obtain s' where run: "claimInitialGold p ?s = Inr (s', [GoldClaimed p])"
    and gold: "plain (goldBalances s' p) = currentBalance ?s p + INITIAL_GRANT"
    and status: "plain (lastActionStatus s' p) = 0"
    and claimed: "hasClaimed s' p"
    and same: "stakedBalances s' p = stakedBalances ?s p"
    by auto
  have zero: "currentBalance ?s p = 0" "currentStake ?s p = 0"
    using unclaimed_empty [OF inv un] by simp_all
  have "slot_inv ?s StakedBalances HasStakedBalance p"
    using inv by (simp add: account_inv_def)
  then have "plain (stakedBalances ?s p) = 0"
    using zero(2) by (auto simp: slot_inv_def currentStake_def ZeroHash_def split: if_splits)
  then show ?thesis
    using run gold status claimed same zero(1)
    by (simp add: Let_def decryptValue_plain getGoldBalance_def getStakedBalance_def
        getLastActionStatus_def hasClaimedInitialGold_def INITIAL_GRANT_def)
qed

theorem grant_effect_witness:
  "((1 :: address), ClaimInitialGold) \<notin> set [(2, ClaimInitialGold), (1, WithdrawStakedGold 5 [1])] \<and>
   (case claimInitialGold 1
           (after 9 example_verifier [(2, ClaimInitialGold), (1, WithdrawStakedGold 5 [1])]) of
      Inl e \<Rightarrow> False
    | Inr (s', evs) \<Rightarrow>
        evs = [GoldClaimed 1] \<and> decryptValue (getGoldBalance s' 1) = 100 \<and>
        decryptValue (getStakedBalance s' 1) = 0 \<and> decryptValue (getLastActionStatus s' 1) = 0 \<and>
        hasClaimedInitialGold s' 1)"
proof -
  have h: "((1 :: address), ClaimInitialGold) \<notin>
      set [(2, ClaimInitialGold), (1, WithdrawStakedGold 5 [1])]"
    by simp
  show ?thesis
    using h grant_effect [OF h, of 9 example_verifier]
    by (auto simp: Let_def split: sum.splits prod.splits)
qed

text \<open>
  C6 (absent-account reads). In every state the ledger reaches from deployment, each of
  the three getters returns the all-zero handle for an identity exactly when the
  corresponding existence flag of that identity is unset; hence what is stored under a
  set flag is never the all-zero handle. In particular an encryption of zero issued by
  the capability is not the all-zero handle.
\<close>

theorem absent_reads:
  "(let s = after this att txs in
      (getGoldBalance s p = ZeroHash \<longleftrightarrow> \<not> hasGoldBalance s p) \<and>
      (getStakedBalance s p = ZeroHash \<longleftrightarrow> \<not> hasStakedBalance s p) \<and>
      (getLastActionStatus s p = ZeroHash \<longleftrightarrow> \<not> hasStatusRecord s p)) \<and>
   fst (asEuint32 0 f) \<noteq> ZeroHash"
proof -
  have slot: "bucket_read b s p = ZeroHash \<longleftrightarrow> \<not> flags_read fl s p" if "slot_inv s b fl p"
    for s b fl
    using that by (auto simp: slot_inv_def stored_def ZeroHash_def split: if_splits)
  have inv: "account_inv (after this att txs) p"
    by (rule after_inv)
  have "getGoldBalance (after this att txs) p = ZeroHash \<longleftrightarrow>
      \<not> hasGoldBalance (after this att txs) p"
    using slot [of "after this att txs" GoldBalances HasGoldBalance] inv
    by (simp add: account_inv_def getGoldBalance_def)
  moreover have "getStakedBalance (after this att txs) p = ZeroHash \<longleftrightarrow>
      \<not> hasStakedBalance (after this att txs) p"
    using slot [of "after this att txs" StakedBalances HasStakedBalance] inv
    by (simp add: account_inv_def getStakedBalance_def)
  moreover have "getLastActionStatus (after this att txs) p = ZeroHash \<longleftrightarrow>
      \<not> hasStatusRecord (after this att txs) p"
    using slot [of "after this att txs" LastActionStatus HasStatusRecord] inv
    by (simp add: account_inv_def getLastActionStatus_def)
  moreover have "fst (asEuint32 0 f) \<noteq> ZeroHash"
    by (simp add: asEuint32_def issue_def ZeroHash_def)
  ultimately show ?thesis
    by (simp add: Let_def)
qed

theorem absent_reads_witness:
  "(let s = after 9 example_verifier [(1, WithdrawStakedGold 5 [1])] in
      getGoldBalance s 1 \<noteq> ZeroHash \<and> hasGoldBalance s 1 \<and> decryptValue (getGoldBalance s 1) = 0 \<and>
      getGoldBalance s 2 = ZeroHash \<and> \<not> hasGoldBalance s 2 \<and>
      getLastActionStatus s 2 = ZeroHash \<and> getStakedBalance s 1 \<noteq> ZeroHash)"
proof -
  have "hasGoldBalance (after 9 example_verifier [(1, WithdrawStakedGold 5 [1])]) 1"
    and "hasStakedBalance (after 9 example_verifier [(1, WithdrawStakedGold 5 [1])]) 1"
    and "\<not> hasGoldBalance (after 9 example_verifier [(1, WithdrawStakedGold 5 [1])]) 2"
    and "\<not> hasStatusRecord (after 9 example_verifier [(1, WithdrawStakedGold 5 [1])]) 2"
    and "decryptValue (getGoldBalance (after 9 example_verifier [(1, WithdrawStakedGold 5 [1])]) 1) = 0"
    by (simp_all add: run_defs decryptValue_plain getGoldBalance_def)
  then show ?thesis
    using absent_reads [of 9 example_verifier "[(1, WithdrawStakedGold 5 [1])]" 1
        "deployed 9 example_verifier"]
      absent_reads [of 9 example_verifier "[(1, WithdrawStakedGold 5 [1])]" 2
        "deployed 9 example_verifier"]
    by (simp add: Let_def)
qed

text \<open>
  C7 (dual-grant bookkeeping). \<open>_storeEncryptedValue\<close> writes the value, sets the flag it
  is given and grants decryption of the value to the contract and to the player. Every
  call that commits from any state leaves each of the caller's three slots either as it
  was or holding a value whose flag is set and which the contract and the caller may
  decrypt. In every state reached from deployment a set flag comes with both grants for
  the value in the slot, and a slot whose flag is unset holds no value.
\<close>

theorem dual_grant_bookkeeping:
  "(let s' = storeEncryptedValue b fl p v s in
      bucket_read b s' p = v \<and> flags_read fl s' p \<and>
      (handle v, thisAddress s') \<in> acl s' \<and> (handle v, p) \<in> acl s') \<and>
   (dispatch p c s = Inr (s', evs) \<longrightarrow>
      (goldBalances s' p = goldBalances s p \<or>
         hasGoldBalance s' p \<and> dual_grant s' (goldBalances s' p) p) \<and>
      (stakedBalances s' p = stakedBalances s p \<or>
         hasStakedBalance s' p \<and> dual_grant s' (stakedBalances s' p) p) \<and>
      (lastActionStatus s' p = lastActionStatus s p \<or>
         hasStatusRecord s' p \<and> dual_grant s' (lastActionStatus s' p) p)) \<and>
   (let r = after this att txs in
      (if hasGoldBalance r p then dual_grant r (goldBalances r p) p
       else goldBalances r p = ZeroHash) \<and>
      (if hasStakedBalance r p then dual_grant r (stakedBalances r p) p
       else stakedBalances r p = ZeroHash) \<and>
      (if hasStatusRecord r p then dual_grant r (lastActionStatus r p) p
       else lastActionStatus r p = ZeroHash))"
proof -
  have store: "let s' = storeEncryptedValue b fl p v s in
      bucket_read b s' p = v \<and> flags_read fl s' p \<and>
      (handle v, thisAddress s') \<in> acl s' \<and> (handle v, p) \<in> acl s'"
    by (cases b; cases fl) (simp_all add: storeEncryptedValue_def allowThis_def allow_def)
  have call: "(goldBalances s' p = goldBalances s p \<or>
         hasGoldBalance s' p \<and> dual_grant s' (goldBalances s' p) p) \<and>
      (stakedBalances s' p = stakedBalances s p \<or>
         hasStakedBalance s' p \<and> dual_grant s' (stakedBalances s' p) p) \<and>
      (lastActionStatus s' p = lastActionStatus s p \<or>
         hasStatusRecord s' p \<and> dual_grant s' (lastActionStatus s' p) p)"
    if run: "dispatch p c s = Inr (s', evs)"
  proof (cases c)
    case ClaimInitialGold
    then have c: "claimInitialGold p s = Inr (s', evs)"
      using run by simp
    then have "\<not> hasClaimed s p"
      by (auto simp: claim_reverts)
    from claim_ok [OF this] c show ?thesis
      by (auto simp: stored_def)
  next
    case (StakeGold h pf)
    then have c: "stakeGold p h pf s = Inr (s', evs)"
      using run by simp
    then obtain a where "attested s p h pf = Some a"
      by (cases "attested s p h pf") (auto simp: stake_reverts)
    from stake_ok [OF this] c show ?thesis
      by (auto simp: stored_def)
  next
    case (WithdrawStakedGold h pf)
    then have c: "withdrawStakedGold p h pf s = Inr (s', evs)"
      using run by simp
    then obtain a where "attested s p h pf = Some a"
      by (cases "attested s p h pf") (auto simp: withdraw_reverts)
    from withdraw_ok [OF this] c show ?thesis
      by (auto simp: stored_def)
  qed
  have slot: "if flags_read fl' r p then dual_grant r (bucket_read b' r p) p
      else bucket_read b' r p = ZeroHash" if "slot_inv r b' fl' p" for r b' fl'
    using that by (auto simp: slot_inv_def stored_def split: if_splits)
  have inv: "account_inv (after this att txs) p"
    by (rule after_inv)
  have reach: "let r = after this att txs in
      (if hasGoldBalance r p then dual_grant r (goldBalances r p) p
       else goldBalances r p = ZeroHash) \<and>
      (if hasStakedBalance r p then dual_grant r (stakedBalances r p) p
       else stakedBalances r p = ZeroHash) \<and>
      (if hasStatusRecord r p then dual_grant r (lastActionStatus r p) p
       else lastActionStatus r p = ZeroHash)"
    unfolding Let_def
  proof (intro conjI)
    show "if hasGoldBalance (after this att txs) p
      then dual_grant (after this att txs) (goldBalances (after this att txs) p) p
      else goldBalances (after this att txs) p = ZeroHash"
      using slot [of "after this att txs" GoldBalances HasGoldBalance] inv
      by (auto simp: account_inv_def split: if_splits)
    show "if hasStakedBalance (after this att txs) p
      then dual_grant (after this att txs) (stakedBalances (after this att txs) p) p
      else stakedBalances (after this att txs) p = ZeroHash"
      using slot [of "after this att txs" StakedBalances HasStakedBalance] inv
      by (auto simp: account_inv_def split: if_splits)
    show "if hasStatusRecord (after this att txs) p
      then dual_grant (after this att txs) (lastActionStatus (after this att txs) p) p
      else lastActionStatus (after this att txs) p = ZeroHash"
      using slot [of "after this att txs" LastActionStatus HasStatusRecord] inv
      by (auto simp: account_inv_def split: if_splits)
  qed
  from store call reach show ?thesis
    by blast
qed

theorem dual_grant_bookkeeping_witness:
  "(let s = after 9 example_verifier [(1, ClaimInitialGold)] in
      dispatch 1 (StakeGold 150 [1]) s \<noteq> Inl InvalidProof \<and>
      hasGoldBalance s 1 \<and> (handle (goldBalances s 1), 9) \<in> acl s \<and>
      (handle (goldBalances s 1), 1) \<in> acl s \<and>
      stakedBalances s 1 = ZeroHash \<and>
      (let s' = fst (projr (dispatch 1 (StakeGold 150 [1]) s)) in
         hasStakedBalance s' 1 \<and> dual_grant s' (stakedBalances s' 1) 1 \<and>
         stakedBalances s' 1 \<noteq> stakedBalances s 1))"
proof -
  let ?s = "after 9 example_verifier [(1, ClaimInitialGold)]"
  let ?r = "dispatch 1 (StakeGold 150 [1]) ?s"
  have att: "attested ?s 1 150 [1] = Some 150"
    by (simp add: config_after example_verifier_def)
  from stake_ok [OF att] obtain s' evs where r: "?r = Inr (s', evs)"
    and st: "handle (stakedBalances s' 1) \<noteq> 0"
    by (auto simp: stored_def)
  have flags: "hasGoldBalance ?s 1" "\<not> hasStakedBalance ?s 1" "thisAddress ?s = 9"
    by (simp_all add: run_defs)
  have ne: "stakedBalances s' 1 \<noteq> stakedBalances ?s 1"
    using dual_grant_bookkeeping [of GoldBalances HasGoldBalance 1 ZeroHash ?s "StakeGold 150 [1]"
        s' evs 9 example_verifier "[(1, ClaimInitialGold)]"] flags st
    by (auto simp: Let_def ZeroHash_def)
  show ?thesis
    using dual_grant_bookkeeping [of GoldBalances HasGoldBalance 1 ZeroHash ?s "StakeGold 150 [1]"
        s' evs 9 example_verifier "[(1, ClaimInitialGold)]"] r flags ne
    by (simp add: Let_def dual_grant_def)
qed

text \<open>
  C8 (claimed-flag monotonicity). No transaction resets \<open>hasClaimed\<close> of an identity; the
  only transaction that sets it is a grant call by that identity that commits, in the same
  transaction that emits its GoldClaimed event; and in every history from deployment the
  number of GoldClaimed events of an identity is 1 when its flag is set and 0 otherwise,
  so the flag is set exactly once, by the first grant that commits.
\<close>

theorem claimed_monotone:
  "(hasClaimed s q \<longrightarrow> hasClaimed (fst (transact t s)) q) \<and>
   (\<not> hasClaimed s q \<and> hasClaimed (fst (transact t s)) q \<longrightarrow>
      t = (q, ClaimInitialGold) \<and> snd (transact t s) = ([GoldClaimed q], None)) \<and>
   count_list (snd (run txs (deployed this att))) (GoldClaimed q) =
     (if hasClaimed (after this att txs) q then 1 else 0)"
proof -
  have "snd (transact (q, ClaimInitialGold) s) = ([GoldClaimed q], None)" if "\<not> hasClaimed s q"
    using claim_ok [OF that] by (auto simp: transact_def)
  moreover have "count_list (snd (run txs (deployed this att))) (GoldClaimed q) =
     (if hasClaimed (after this att txs) q then 1 else 0)"
    by (simp add: events_run claimed_after) (simp add: deployed_def)
  ultimately show ?thesis
    by (auto simp: claimed_transact)
qed

theorem claimed_monotone_witness:
  "\<not> hasClaimed (deployed 9 example_verifier) 1 \<and>
   hasClaimed (fst (transact (1, ClaimInitialGold) (deployed 9 example_verifier))) 1 \<and>
   snd (transact (1, ClaimInitialGold) (deployed 9 example_verifier)) = ([GoldClaimed 1], None) \<and>
   hasClaimed (fst (transact (1, StakeGold 150 [1]) (after 9 example_verifier [(1, ClaimInitialGold)]))) 1 \<and>
   count_list (snd (run [(1, ClaimInitialGold), (1, StakeGold 40 [1]), (1, ClaimInitialGold)]
                      (deployed 9 example_verifier))) (GoldClaimed 1) = 1"
proof -
  have a: "\<not> hasClaimed (deployed 9 example_verifier) 1"
    by (simp add: deployed_def)
  have b: "hasClaimed (fst (transact (1, ClaimInitialGold) (deployed 9 example_verifier))) 1"
    by (simp add: claimed_transact)
  have c: "hasClaimed (after 9 example_verifier [(1, ClaimInitialGold)]) 1"
    by (simp add: claimed_after)
  have d: "hasClaimed (after 9 example_verifier
      [(1, ClaimInitialGold), (1, StakeGold 40 [1]), (1, ClaimInitialGold)]) 1"
    by (simp add: claimed_after)
  show ?thesis
    using a b c d
      claimed_monotone [of "deployed 9 example_verifier" 1 "(1, ClaimInitialGold)"
        "[(1, ClaimInitialGold), (1, StakeGold 40 [1]), (1, ClaimInitialGold)]" 9 example_verifier]
      claimed_monotone [of "after 9 example_verifier [(1, ClaimInitialGold)]" 1
        "(1, StakeGold 150 [1])" "[]" 9 example_verifier]
    by (simp del: run.simps)
qed

text \<open>
  C9 (an insufficient call still writes). In a state reached from deployment, a
  \<open>stakeGold\<close> or \<open>withdrawStakedGold\<close> call whose proof verifies commits, sets the three
  existence flags of the caller and writes each of the caller's three slots, also when the
  comparison resolves to insufficiency: after the call each slot holds a handle that was
  issued during the call (its number is above the count of handles issued before the call),
  so each getter returns a handle that is neither the all-zero handle nor the handle it
  returned before. On insufficiency balance and stake decrypt to the values before the call
  and the status decrypts to 1 for a stake and to 2 for a withdrawal. For a caller that
  never transacted before, the three getters returned the all-zero handle before the call,
  and after it balance and stake decrypt to zero.
\<close>

theorem insufficient_call_still_writes:
  assumes "att p h prf = Some a"
  shows "(let s = after this att txs in
           (case stakeGold p h prf s of
              Inl e \<Rightarrow> False
            | Inr (s', evs) \<Rightarrow>
                hasGoldBalance s' p \<and> hasStakedBalance s' p \<and> hasStatusRecord s' p \<and>
                getGoldBalance s' p \<noteq> ZeroHash \<and> getStakedBalance s' p \<noteq> ZeroHash \<and>
                getLastActionStatus s' p \<noteq> ZeroHash \<and>
                handleCount s < handle (getGoldBalance s' p) \<and>
                handleCount s < handle (getStakedBalance s' p) \<and>
                handleCount s < handle (getLastActionStatus s' p) \<and>
                getGoldBalance s' p \<noteq> getGoldBalance s p \<and>
                getStakedBalance s' p \<noteq> getStakedBalance s p \<and>
                getLastActionStatus s' p \<noteq> getLastActionStatus s p \<and>
                (\<not> a \<le> currentBalance s p \<longrightarrow>
                   decryptValue (getGoldBalance s' p) = currentBalance s p \<and>
                   decryptValue (getStakedBalance s' p) = currentStake s p \<and>
                   decryptValue (getLastActionStatus s' p) = 1) \<and>
                (p \<notin> fst ` set txs \<longrightarrow>
                   decryptValue (getGoldBalance s' p) = 0 \<and>
                   decryptValue (getStakedBalance s' p) = 0)) \<and>
           (case withdrawStakedGold p h prf s of
              Inl e \<Rightarrow> False
            | Inr (s', evs) \<Rightarrow>
                hasGoldBalance s' p \<and> hasStakedBalance s' p \<and> hasStatusRecord s' p \<and>
                getGoldBalance s' p \<noteq> ZeroHash \<and> getStakedBalance s' p \<noteq> ZeroHash \<and>
                getLastActionStatus s' p \<noteq> ZeroHash \<and>
                handleCount s < handle (getGoldBalance s' p) \<and>
                handleCount s < handle (getStakedBalance s' p) \<and>
                handleCount s < handle (getLastActionStatus s' p) \<and>
                getGoldBalance s' p \<noteq> getGoldBalance s p \<and>
                getStakedBalance s' p \<noteq> getStakedBalance s p \<and>
                getLastActionStatus s' p \<noteq> getLastActionStatus s p \<and>
                (\<not> a \<le> currentStake s p \<longrightarrow>
                   decryptValue (getGoldBalance s' p) = currentBalance s p \<and>
                   decryptValue (getStakedBalance s' p) = currentStake s p \<and>
                   decryptValue (getLastActionStatus s' p) = 2) \<and>
                (p \<notin> fst ` set txs \<longrightarrow>
                   decryptValue (getGoldBalance s' p) = 0 \<and>
                   decryptValue (getStakedBalance s' p) = 0)) \<and>
           (p \<notin> fst ` set txs \<longrightarrow>
              getGoldBalance s p = ZeroHash \<and> getStakedBalance s p = ZeroHash \<and>
              getLastActionStatus s p = ZeroHash))"
proof -
  let ?s = "after this att txs"
  have att: "attested ?s p h prf = Some a"
    using assms by (simp add: config_after)
  have fresh: "currentBalance ?s p = 0 \<and> currentStake ?s p = 0 \<and>
      getGoldBalance ?s p = ZeroHash \<and> getStakedBalance ?s p = ZeroHash \<and>
      getLastActionStatus ?s p = ZeroHash" if "p \<notin> fst ` set txs"
    using untouched_after [OF that, of this att]
    by (simp add: currentBalance_def currentStake_def getGoldBalance_def getStakedBalance_def
        getLastActionStatus_def)
  have nz: "c \<noteq> ZeroHash" if "handle c \<noteq> 0" for c
    using that by (auto simp: ZeroHash_def)
  have old: "handle (goldBalances ?s p) \<le> handleCount ?s"
    "handle (stakedBalances ?s p) \<le> handleCount ?s"
    "handle (lastActionStatus ?s p) \<le> handleCount ?s"
    using after_handles [of this att txs p] by (simp_all add: handles_inv_def)
  have written: "handleCount ?s < handle (getGoldBalance r p) \<and>
      handleCount ?s < handle (getStakedBalance r p) \<and>
      handleCount ?s < handle (getLastActionStatus r p) \<and>
      getGoldBalance r p \<noteq> getGoldBalance ?s p \<and>
      getStakedBalance r p \<noteq> getStakedBalance ?s p \<and>
      getLastActionStatus r p \<noteq> getLastActionStatus ?s p"
    if "handleCount ?s < handle (goldBalances r p)"
      and "handleCount ?s < handle (stakedBalances r p)"
      and "handleCount ?s < handle (lastActionStatus r p)" for r
    using that old
    by (auto simp: getGoldBalance_def getStakedBalance_def getLastActionStatus_def)
  from stake_ok [OF att] obtain s1 where
    s1: "stakeGold p h prf ?s = Inr (s1, [GoldStaked p])"
    and g1: "plain (goldBalances s1 p) =
         (if a \<le> currentBalance ?s p then currentBalance ?s p - a else currentBalance ?s p)"
    and k1: "plain (stakedBalances s1 p) =
         (if a \<le> currentBalance ?s p then currentStake ?s p + a else currentStake ?s p)"
    and u1: "plain (lastActionStatus s1 p) = (if a \<le> currentBalance ?s p then 0 else 1)"
    and st1: "stored s1 GoldBalances HasGoldBalance p" "stored s1 StakedBalances HasStakedBalance p"
      "stored s1 LastActionStatus HasStatusRecord p"
    by auto
  from stake_handles [OF att] s1 have h1: "handleCount ?s < handle (goldBalances s1 p)"
    "handleCount ?s < handle (stakedBalances s1 p)"
    "handleCount ?s < handle (lastActionStatus s1 p)"
    by auto
  from withdraw_ok [OF att] obtain s2 where
    s2: "withdrawStakedGold p h prf ?s = Inr (s2, [GoldWithdrawn p])"
    and g2: "plain (goldBalances s2 p) =
         (if a \<le> currentStake ?s p then currentBalance ?s p + a else currentBalance ?s p)"
    and k2: "plain (stakedBalances s2 p) =
         (if a \<le> currentStake ?s p then currentStake ?s p - a else currentStake ?s p)"
    and u2: "plain (lastActionStatus s2 p) = (if a \<le> currentStake ?s p then 0 else 2)"
    and st2: "stored s2 GoldBalances HasGoldBalance p" "stored s2 StakedBalances HasStakedBalance p"
      "stored s2 LastActionStatus HasStatusRecord p"
    by auto
  from withdraw_handles [OF att] s2 have h2: "handleCount ?s < handle (goldBalances s2 p)"
    "handleCount ?s < handle (stakedBalances s2 p)"
    "handleCount ?s < handle (lastActionStatus s2 p)"
    by auto
  have a: "hasGoldBalance s1 p \<and> hasStakedBalance s1 p \<and> hasStatusRecord s1 p \<and>
      getGoldBalance s1 p \<noteq> ZeroHash \<and> getStakedBalance s1 p \<noteq> ZeroHash \<and>
      getLastActionStatus s1 p \<noteq> ZeroHash"
    using st1 by (simp add: stored_def nz getGoldBalance_def getStakedBalance_def
        getLastActionStatus_def)
  have b: "hasGoldBalance s2 p \<and> hasStakedBalance s2 p \<and> hasStatusRecord s2 p \<and>
      getGoldBalance s2 p \<noteq> ZeroHash \<and> getStakedBalance s2 p \<noteq> ZeroHash \<and>
      getLastActionStatus s2 p \<noteq> ZeroHash"
    using st2 by (simp add: stored_def nz getGoldBalance_def getStakedBalance_def
        getLastActionStatus_def)
  have c: "decryptValue (getGoldBalance s1 p) = plain (goldBalances s1 p)"
    "decryptValue (getStakedBalance s1 p) = plain (stakedBalances s1 p)"
    "decryptValue (getLastActionStatus s1 p) = plain (lastActionStatus s1 p)"
    "decryptValue (getGoldBalance s2 p) = plain (goldBalances s2 p)"
    "decryptValue (getStakedBalance s2 p) = plain (stakedBalances s2 p)"
    "decryptValue (getLastActionStatus s2 p) = plain (lastActionStatus s2 p)"
    by (simp_all add: decryptValue_plain getGoldBalance_def getStakedBalance_def
        getLastActionStatus_def)
  have stake_part: "hasGoldBalance s1 p \<and> hasStakedBalance s1 p \<and> hasStatusRecord s1 p \<and>
      getGoldBalance s1 p \<noteq> ZeroHash \<and> getStakedBalance s1 p \<noteq> ZeroHash \<and>
      getLastActionStatus s1 p \<noteq> ZeroHash \<and>
      handleCount ?s < handle (getGoldBalance s1 p) \<and>
      handleCount ?s < handle (getStakedBalance s1 p) \<and>
      handleCount ?s < handle (getLastActionStatus s1 p) \<and>
      getGoldBalance s1 p \<noteq> getGoldBalance ?s p \<and>
      getStakedBalance s1 p \<noteq> getStakedBalance ?s p \<and>
      getLastActionStatus s1 p \<noteq> getLastActionStatus ?s p \<and>
      (\<not> a \<le> currentBalance ?s p \<longrightarrow>
         decryptValue (getGoldBalance s1 p) = currentBalance ?s p \<and>
         decryptValue (getStakedBalance s1 p) = currentStake ?s p \<and>
         decryptValue (getLastActionStatus s1 p) = 1) \<and>
      (p \<notin> fst ` set txs \<longrightarrow>
         decryptValue (getGoldBalance s1 p) = 0 \<and>
         decryptValue (getStakedBalance s1 p) = 0)"
    using a written [OF h1] fresh by (auto simp: c g1 k1 u1)
  have withdraw_part: "hasGoldBalance s2 p \<and> hasStakedBalance s2 p \<and> hasStatusRecord s2 p \<and>
      getGoldBalance s2 p \<noteq> ZeroHash \<and> getStakedBalance s2 p \<noteq> ZeroHash \<and>
      getLastActionStatus s2 p \<noteq> ZeroHash \<and>
      handleCount ?s < handle (getGoldBalance s2 p) \<and>
      handleCount ?s < handle (getStakedBalance s2 p) \<and>
      handleCount ?s < handle (getLastActionStatus s2 p) \<and>
      getGoldBalance s2 p \<noteq> getGoldBalance ?s p \<and>
      getStakedBalance s2 p \<noteq> getStakedBalance ?s p \<and>
      getLastActionStatus s2 p \<noteq> getLastActionStatus ?s p \<and>
      (\<not> a \<le> currentStake ?s p \<longrightarrow>
         decryptValue (getGoldBalance s2 p) = currentBalance ?s p \<and>
         decryptValue (getStakedBalance s2 p) = currentStake ?s p \<and>
         decryptValue (getLastActionStatus s2 p) = 2) \<and>
      (p \<notin> fst ` set txs \<longrightarrow>
         decryptValue (getGoldBalance s2 p) = 0 \<and>
         decryptValue (getStakedBalance s2 p) = 0)"
    using b written [OF h2] fresh by (auto simp: c g2 k2 u2)
  from stake_part withdraw_part fresh show ?thesis
    unfolding Let_def s1 s2 sum.case prod.case by blast
qed

theorem insufficient_call_still_writes_witness:
  "example_verifier 1 7 [1] = Some 7 \<and> (1 :: address) \<notin> fst ` set [(2, ClaimInitialGold)] \<and>
   example_verifier 2 150 [1] = Some 150 \<and>
   (let s = after 9 example_verifier [(2, ClaimInitialGold)] in
      getGoldBalance s 1 = ZeroHash \<and> \<not> 7 \<le> currentBalance s 1 \<and>
      (case stakeGold 1 7 [1] s of
         Inl e \<Rightarrow> False
       | Inr (s', evs) \<Rightarrow>
           hasGoldBalance s' 1 \<and> hasStakedBalance s' 1 \<and> hasStatusRecord s' 1 \<and>
           getGoldBalance s' 1 \<noteq> ZeroHash \<and> getStakedBalance s' 1 \<noteq> ZeroHash \<and>
           getLastActionStatus s' 1 \<noteq> ZeroHash \<and>
           decryptValue (getGoldBalance s' 1) = 0 \<and> decryptValue (getStakedBalance s' 1) = 0 \<and>
           decryptValue (getLastActionStatus s' 1) = 1) \<and>
      currentBalance s 2 = 100 \<and> decryptValue (getLastActionStatus s 2) = 0 \<and>
      (case stakeGold 2 150 [1] s of
         Inl e \<Rightarrow> False
       | Inr (s', evs) \<Rightarrow>
           getGoldBalance s' 2 \<noteq> getGoldBalance s 2 \<and>
           getLastActionStatus s' 2 \<noteq> getLastActionStatus s 2 \<and>
           handleCount s < handle (getGoldBalance s' 2) \<and>
           decryptValue (getGoldBalance s' 2) = 100 \<and>
           decryptValue (getStakedBalance s' 2) = 0 \<and>
           decryptValue (getLastActionStatus s' 2) = 1))"
proof -
  have h: "example_verifier 1 7 [1] = Some 7" "example_verifier 2 150 [1] = Some 150"
    by (simp_all add: example_verifier_def)
  have f: "(1 :: address) \<notin> fst ` set [(2, ClaimInitialGold)]"
    by simp
  have cb: "\<not> 7 \<le> currentBalance (after 9 example_verifier [(2, ClaimInitialGold)]) 1"
    "currentBalance (after 9 example_verifier [(2, ClaimInitialGold)]) 2 = 100"
    "currentStake (after 9 example_verifier [(2, ClaimInitialGold)]) 2 = 0"
    "decryptValue (getLastActionStatus (after 9 example_verifier [(2, ClaimInitialGold)]) 2) = 0"
    by (simp_all add: run_defs decryptValue_plain getLastActionStatus_def)
  have st: "decryptValue (getLastActionStatus
      (fst (projr (stakeGold 1 7 [1] (after 9 example_verifier [(2, ClaimInitialGold)])))) 1) = 1"
    by (simp add: run_defs decryptValue_plain getLastActionStatus_def)
  have one: "case stakeGold 1 7 [1] (after 9 example_verifier [(2, ClaimInitialGold)]) of
         Inl e \<Rightarrow> False
       | Inr (s', evs) \<Rightarrow>
           hasGoldBalance s' 1 \<and> hasStakedBalance s' 1 \<and> hasStatusRecord s' 1 \<and>
           getGoldBalance s' 1 \<noteq> ZeroHash \<and> getStakedBalance s' 1 \<noteq> ZeroHash \<and>
           getLastActionStatus s' 1 \<noteq> ZeroHash \<and>
           decryptValue (getGoldBalance s' 1) = 0 \<and> decryptValue (getStakedBalance s' 1) = 0 \<and>
           decryptValue (getLastActionStatus s' 1) = 1"
    using h f cb st
      insufficient_call_still_writes [of example_verifier 1 7 "[1]" 7 9 "[(2, ClaimInitialGold)]"]
    by (auto simp: Let_def split: sum.splits prod.splits)
  have two: "case stakeGold 2 150 [1] (after 9 example_verifier [(2, ClaimInitialGold)]) of
         Inl e \<Rightarrow> False
       | Inr (s', evs) \<Rightarrow>
           getGoldBalance s' 2 \<noteq> getGoldBalance (after 9 example_verifier [(2, ClaimInitialGold)]) 2 \<and>
           getLastActionStatus s' 2 \<noteq>
             getLastActionStatus (after 9 example_verifier [(2, ClaimInitialGold)]) 2 \<and>
           handleCount (after 9 example_verifier [(2, ClaimInitialGold)]) <
             handle (getGoldBalance s' 2) \<and>
           decryptValue (getGoldBalance s' 2) = 100 \<and>
           decryptValue (getStakedBalance s' 2) = 0 \<and>
           decryptValue (getLastActionStatus s' 2) = 1"
    using h cb
      insufficient_call_still_writes [of example_verifier 2 150 "[1]" 150 9 "[(2, ClaimInitialGold)]"]
    by (auto simp: Let_def split: sum.splits prod.splits)
  have zero: "getGoldBalance (after 9 example_verifier [(2, ClaimInitialGold)]) 1 = ZeroHash"
    using f insufficient_call_still_writes [of example_verifier 1 7 "[1]" 7 9 "[(2, ClaimInitialGold)]"] h
    by (simp add: Let_def)
  from h f cb one two zero show ?thesis
    by (simp add: Let_def)
qed

text \<open>
  C10 (frame). A call by \<open>x\<close>, whatever its outcome and in whatever state, leaves the seven
  entries (balance, stake, status, claimed and the three existence flags) of every other
  identity \<open>y\<close> as they were; a grant moreover leaves the stake slot and the stake existence
  flag of the caller as they were.
\<close>

theorem frame_property:
  assumes "y \<noteq> x"
  shows "(let s' = fst (transact (x, c) s) in
            goldBalances s' y = goldBalances s y \<and> stakedBalances s' y = stakedBalances s y \<and>
            lastActionStatus s' y = lastActionStatus s y \<and> hasClaimed s' y = hasClaimed s y \<and>
            hasGoldBalance s' y = hasGoldBalance s y \<and>
            hasStakedBalance s' y = hasStakedBalance s y \<and>
            hasStatusRecord s' y = hasStatusRecord s y) \<and>
         (let s' = fst (transact (x, ClaimInitialGold) s) in
            stakedBalances s' x = stakedBalances s x \<and>
            hasStakedBalance s' x = hasStakedBalance s x)"
proof -
  have "same_account s (fst (transact (x, c) s)) y"
    using untouched_transact [of y "(x, c)" s] assms by simp
  moreover have "stakedBalances (fst (transact (x, ClaimInitialGold) s)) x = stakedBalances s x \<and>
      hasStakedBalance (fst (transact (x, ClaimInitialGold) s)) x = hasStakedBalance s x"
  proof (cases "hasClaimed s x")
    case True
    then show ?thesis by (simp add: transact_def claim_reverts)
  next
    case False
    from claim_ok [OF False] show ?thesis by (auto simp: transact_def)
  qed
  ultimately show ?thesis
    by (simp add: same_account_def Let_def)
qed

theorem frame_property_witness:
  "(let s = after 9 example_verifier [(2, ClaimInitialGold)];
        s' = fst (transact (1, StakeGold 40 [1]) s) in
      (2 :: address) \<noteq> 1 \<and>
      goldBalances s' 2 = goldBalances s 2 \<and> stakedBalances s' 2 = stakedBalances s 2 \<and>
      lastActionStatus s' 2 = lastActionStatus s 2 \<and> hasClaimed s' 2 = hasClaimed s 2 \<and>
      hasGoldBalance s' 2 = hasGoldBalance s 2 \<and>
      hasStakedBalance s' 2 = hasStakedBalance s 2 \<and>
      hasStatusRecord s' 2 = hasStatusRecord s 2 \<and>
      hasGoldBalance s' 1 \<and> plain (goldBalances s 2) = 100)"
proof -
  have ne: "(2 :: address) \<noteq> 1" by simp
  have "hasGoldBalance (fst (transact (1, StakeGold 40 [1])
          (after 9 example_verifier [(2, ClaimInitialGold)]))) 1"
    and "plain (goldBalances (after 9 example_verifier [(2, ClaimInitialGold)]) 2) = 100"
    by (simp_all add: run_defs)
  then show ?thesis
    using ne
      frame_property [OF ne, of "StakeGold 40 [1]" "after 9 example_verifier [(2, ClaimInitialGold)]"]
    by (simp add: Let_def)
qed

end
